theory Spec2Isabelle
  imports Main "HOL-Library.Finite_Map"
begin

section \<open>Heap cells and faults\<close>

text \<open>
  The containers of this repository are written over raw pointers: a node is a
  heap cell \<^verbatim>\<open>struct Element { T data; Element* next; }\<close>, obtained with
  \<^verbatim>\<open>new Element()\<close> and given back with \<^verbatim>\<open>delete\<close>. The model keeps an
  explicit store: a pointer is an address or \<^verbatim>\<open>nullptr\<close> (\<open>None\<close>), and the
  heap is a finite map from the addresses that are currently allocated to
  their cells. A deleted address leaves the map, so a read through a dangling
  or null pointer is visible as a fault instead of returning a value.

  The mutexes and the condition variable are not part of the state: every
  function below is the sequential behaviour of one call that runs alone.
\<close>

type_synonym addr = nat

record 'a Element =
  data :: 'a
  "next" :: "addr option"

type_synonym 'a heap = "(addr, 'a Element) fmap"

text \<open>
  What a call can do instead of returning: \<^verbatim>\<open>std::bad_alloc\<close> from
  \<^verbatim>\<open>new\<close>, an exception thrown by the element type while a payload is copied,
  \<^verbatim>\<open>std::runtime_error\<close> with its message, and an access through a pointer
  that designates no allocated cell (undefined behaviour in C++).
\<close>

datatype fault = BadAlloc | CopyThrows | RuntimeError string | InvalidAccess

text \<open>
  \<^verbatim>\<open>new Element()\<close>. The allocator's answer is an argument: \<open>None\<close> when
  the allocation fails, \<open>Some a\<close> when it returns the address \<open>a\<close>. The
  parentheses value-initialise the cell: \<open>data\<close> is the element type's default
  value \<open>dflt\<close> and \<open>next\<close> is null. A real allocator only returns addresses
  that are not in use; the theorems state that as \<open>a |\<notin>| fmdom h\<close>.
\<close>

definition new_Element :: "'a \<Rightarrow> addr option \<Rightarrow> 'a heap \<Rightarrow> fault + addr \<times> 'a heap" where
  "new_Element dflt alloc h =
     (case alloc of
        None \<Rightarrow> Inl BadAlloc
      | Some a \<Rightarrow> Inr (a, fmupd a \<lparr>data = dflt, next = None\<rparr> h))"

text \<open>\<^verbatim>\<open>p->data\<close> and \<^verbatim>\<open>p->next\<close>, read and written.\<close>

definition get_data :: "addr option \<Rightarrow> 'a heap \<Rightarrow> fault + 'a" where
  "get_data p h =
     (case p of
        None \<Rightarrow> Inl InvalidAccess
      | Some a \<Rightarrow> (case fmlookup h a of None \<Rightarrow> Inl InvalidAccess | Some e \<Rightarrow> Inr (data e)))"

definition get_next :: "addr option \<Rightarrow> 'a heap \<Rightarrow> fault + addr option" where
  "get_next p h =
     (case p of
        None \<Rightarrow> Inl InvalidAccess
      | Some a \<Rightarrow> (case fmlookup h a of None \<Rightarrow> Inl InvalidAccess | Some e \<Rightarrow> Inr (next e)))"

definition set_data :: "addr option \<Rightarrow> 'a \<Rightarrow> 'a heap \<Rightarrow> fault + 'a heap" where
  "set_data p v h =
     (case p of
        None \<Rightarrow> Inl InvalidAccess
      | Some a \<Rightarrow>
          (case fmlookup h a of
             None \<Rightarrow> Inl InvalidAccess
           | Some e \<Rightarrow> Inr (fmupd a (e\<lparr>data := v\<rparr>) h)))"

definition set_next :: "addr option \<Rightarrow> addr option \<Rightarrow> 'a heap \<Rightarrow> fault + 'a heap" where
  "set_next p n h =
     (case p of
        None \<Rightarrow> Inl InvalidAccess
      | Some a \<Rightarrow>
          (case fmlookup h a of
             None \<Rightarrow> Inl InvalidAccess
           | Some e \<Rightarrow> Inr (fmupd a (e\<lparr>next := n\<rparr>) h)))"

text \<open>
  \<^verbatim>\<open>delete p\<close>: deleting the null pointer does nothing, deleting an address
  that is not allocated (a second time, say) is a fault.
\<close>

definition delete_Element :: "addr option \<Rightarrow> 'a heap \<Rightarrow> fault + 'a heap" where
  "delete_Element p h =
     (case p of
        None \<Rightarrow> Inr h
      | Some a \<Rightarrow> (if a |\<in>| fmdom h then Inr (fmdrop a h) else Inl InvalidAccess))"


section \<open>CustomQueue (ThreadSafeQueue2.cpp)\<close>

record CustomQueue =
  Head :: "addr option"
  Tail :: "addr option"

text \<open>
  The constructor allocates the dummy node and lets \<open>Head\<close> and \<open>Tail\<close>
  both designate it. When the allocation throws, no object exists.
\<close>

definition CustomQueue_new ::
  "'a \<Rightarrow> addr option \<Rightarrow> 'a heap \<Rightarrow> (fault + CustomQueue) \<times> 'a heap" where
  "CustomQueue_new dflt alloc h =
     (case new_Element dflt alloc h of
        Inl e \<Rightarrow> (Inl e, h)
      | Inr (dummy, h1) \<Rightarrow> (Inr \<lparr>Head = Some dummy, Tail = Some dummy\<rparr>, h1))"

definition get_tail :: "CustomQueue \<Rightarrow> addr option" where
  "get_tail q = Tail q"

text \<open>
  \<^verbatim>\<open>push\<close>: the new dummy is allocated first and its \<open>next\<close> set to null;
  then the payload is written into the node \<open>Tail\<close> designates, the new dummy
  is linked behind it, and \<open>Tail\<close> moves to the new dummy. Every result carries
  the queue and the heap as the call leaves them.

  The copy assignment \<^verbatim>\<open>Tail->data = data\<close> belongs to the element type and
  can throw; \<open>assign_ok v\<close> says that it succeeds on the value \<open>v\<close>. When it
  throws, the exception leaves \<open>push\<close>: \<open>Head\<close> and \<open>Tail\<close> are as before, the
  node \<open>Tail\<close> designates is taken to keep the payload it had, and the new
  dummy stays allocated although no pointer of the queue designates it.
\<close>

definition push ::
  "'a \<Rightarrow> ('a \<Rightarrow> bool) \<Rightarrow> addr option \<Rightarrow> 'a \<Rightarrow> CustomQueue \<Rightarrow> 'a heap
     \<Rightarrow> (fault + unit) \<times> CustomQueue \<times> 'a heap" where
  "push dflt assign_ok alloc v q h =
     (case new_Element dflt alloc h of
        Inl e \<Rightarrow> (Inl e, q, h)
      | Inr (newdummy, h1) \<Rightarrow>
          (case set_next (Some newdummy) None h1 of
             Inl e \<Rightarrow> (Inl e, q, h1)
           | Inr h2 \<Rightarrow>
               (case set_data (Tail q) v h2 of
                  Inl e \<Rightarrow> (Inl e, q, h2)
                | Inr h3 \<Rightarrow>
                    if \<not> assign_ok v then (Inl CopyThrows, q, h2)
                    else
                      (case set_next (Tail q) (Some newdummy) h3 of
                         Inl e \<Rightarrow> (Inl e, q, h3)
                       | Inr h4 \<Rightarrow> (Inr (), q\<lparr>Tail := Some newdummy\<rparr>, h4)))))"

text \<open>
  \<^verbatim>\<open>pop\<close> waits on the condition variable until \<open>Head \<noteq> get_tail()\<close>. A call
  that runs alone on an empty queue is never woken: it does not return, which
  is the value \<open>None\<close>. Otherwise it copies the payload out of the head node
  (\<^verbatim>\<open>T datareturned = Head->data\<close>), moves \<open>Head\<close> to the successor, deletes
  the old node and returns the local copy by value.

  The element type's copy can throw at two places. \<open>copy_ok d\<close> says that the
  copy construction of the local succeeds on the payload \<open>d\<close>; \<open>return_ok d\<close>
  says that constructing the caller's result from the local in
  \<^verbatim>\<open>return datareturned\<close> succeeds (it always does when the compiler elides
  that construction).
\<close>

definition pop ::
  "('a \<Rightarrow> bool) \<Rightarrow> ('a \<Rightarrow> bool) \<Rightarrow> CustomQueue \<Rightarrow> 'a heap
     \<Rightarrow> ((fault + 'a) \<times> CustomQueue \<times> 'a heap) option" where
  "pop copy_ok return_ok q h =
     (if Head q = get_tail q then None
      else Some
        (case get_data (Head q) h of
           Inl e \<Rightarrow> (Inl e, q, h)
         | Inr d \<Rightarrow>
             if \<not> copy_ok d then (Inl CopyThrows, q, h)
             else
               (let datareturned = d; oldelement = Head q in
                case get_next (Head q) h of
                  Inl e \<Rightarrow> (Inl e, q, h)
                | Inr n \<Rightarrow>
                    (case delete_Element oldelement h of
                       Inl e \<Rightarrow> (Inl e, q\<lparr>Head := n\<rparr>, h)
                     | Inr h1 \<Rightarrow>
                         if \<not> return_ok datareturned then (Inl CopyThrows, q\<lparr>Head := n\<rparr>, h1)
                         else (Inr datareturned, q\<lparr>Head := n\<rparr>, h1)))))"

text \<open>
  \<^verbatim>\<open>try_pop(T& value)\<close>: the reference parameter is an argument and, when the
  call returns, part of the result next to the flag. The payload is
  copy-assigned to \<open>value\<close> before the chain is changed.
\<close>

definition try_pop ::
  "('a \<Rightarrow> bool) \<Rightarrow> 'a \<Rightarrow> CustomQueue \<Rightarrow> 'a heap \<Rightarrow> (fault + bool \<times> 'a) \<times> CustomQueue \<times> 'a heap" where
  "try_pop copy_ok val q h =
     (if Head q = get_tail q then (Inr (False, val), q, h)
      else
        (case get_data (Head q) h of
           Inl e \<Rightarrow> (Inl e, q, h)
         | Inr d \<Rightarrow>
             if \<not> copy_ok d then (Inl CopyThrows, q, h)
             else
               (let oldelement = Head q in
                case get_next (Head q) h of
                  Inl e \<Rightarrow> (Inl e, q, h)
                | Inr n \<Rightarrow>
                    (case delete_Element oldelement h of
                       Inl e \<Rightarrow> (Inl e, q\<lparr>Head := n\<rparr>, h)
                     | Inr h1 \<Rightarrow> (Inr (True, d), q\<lparr>Head := n\<rparr>, h1)))))"

definition empty :: "CustomQueue \<Rightarrow> bool" where
  "empty q \<longleftrightarrow> Head q = get_tail q"

text \<open>
  The destructor's loop: while \<open>Head\<close> is not null, remember it, move \<open>Head\<close>
  to its successor, delete the remembered node. Reading \<^verbatim>\<open>Head->next\<close> is a
  fault when \<open>Head\<close> designates no allocated cell; otherwise the cell exists
  and \<^verbatim>\<open>delete\<close> removes it. The C++ destructor returns nothing; the second
  argument is an instrument that records the addresses in the order in which
  they are deleted, and the loop hands the record back when it ends. Every
  iteration that goes on removes a cell from the finite heap, so the loop ends
  on every state, whatever the pointers are.
\<close>

function destroy_loop ::
  "CustomQueue \<Rightarrow> addr list \<Rightarrow> 'a heap \<Rightarrow> (fault + addr list) \<times> CustomQueue \<times> 'a heap" where
  "destroy_loop q released h =
     (case Head q of
        None \<Rightarrow> (Inr released, q, h)
      | Some temp \<Rightarrow>
          (case fmlookup h temp of
             None \<Rightarrow> (Inl InvalidAccess, q, h)
           | Some e \<Rightarrow> destroy_loop (q\<lparr>Head := next e\<rparr>) (released @ [temp]) (fmdrop temp h)))"
  by pat_completeness auto
termination
proof (relation "measure (\<lambda>(q, released, h). card (fmdom' h))")
  show "wf (measure (\<lambda>(q, released, h). card (fmdom' h)))"
    by simp
next
  fix q :: CustomQueue and released :: "addr list" and h :: "'a heap" and temp e
  assume "fmlookup h temp = Some e"
  then have "temp \<in> fmdom' h"
    by (rule fmdom'I)
  then have "card (fmdom' h - {temp}) < card (fmdom' h)"
    by (intro card_Diff1_less finite_fmdom')
  then show "((q\<lparr>Head := next e\<rparr>, released @ [temp], fmdrop temp h), (q, released, h))
      \<in> measure (\<lambda>(q, released, h). card (fmdom' h))"
    by simp
qed

definition CustomQueue_destroy ::
  "CustomQueue \<Rightarrow> 'a heap \<Rightarrow> (fault + addr list) \<times> CustomQueue \<times> 'a heap" where
  "CustomQueue_destroy q h = destroy_loop q [] h"

text \<open>
  Two clients of the queue, used to state properties of runs: \<open>push_all\<close>
  pushes the given values in order, each with the allocator's answer for that
  call, and stops at the first call that throws; \<open>pop_n n\<close> calls \<open>pop\<close>
  \<open>n\<close> times and collects the values in the order in which they are returned.
\<close>

fun push_all ::
  "'a \<Rightarrow> ('a \<Rightarrow> bool) \<Rightarrow> (addr option \<times> 'a) list \<Rightarrow> CustomQueue \<Rightarrow> 'a heap
     \<Rightarrow> (fault + unit) \<times> CustomQueue \<times> 'a heap" where
  "push_all dflt assign_ok [] q h = (Inr (), q, h)"
| "push_all dflt assign_ok ((alloc, v) # rest) q h =
     (case push dflt assign_ok alloc v q h of
        (Inl e, q1, h1) \<Rightarrow> (Inl e, q1, h1)
      | (Inr u, q1, h1) \<Rightarrow> push_all dflt assign_ok rest q1 h1)"

fun pop_n ::
  "nat \<Rightarrow> ('a \<Rightarrow> bool) \<Rightarrow> ('a \<Rightarrow> bool) \<Rightarrow> CustomQueue \<Rightarrow> 'a heap
     \<Rightarrow> ((fault + 'a list) \<times> CustomQueue \<times> 'a heap) option" where
  "pop_n 0 copy_ok return_ok q h = Some (Inr [], q, h)"
| "pop_n (Suc n) copy_ok return_ok q h =
     (case pop copy_ok return_ok q h of
        None \<Rightarrow> None
      | Some (Inl e, q1, h1) \<Rightarrow> Some (Inl e, q1, h1)
      | Some (Inr v, q1, h1) \<Rightarrow>
          (case pop_n n copy_ok return_ok q1 h1 of
             None \<Rightarrow> None
           | Some (Inl e, q2, h2) \<Rightarrow> Some (Inl e, q2, h2)
           | Some (Inr vs, q2, h2) \<Rightarrow> Some (Inr (v # vs), q2, h2)))"


subsection \<open>The chain and the sentinel invariant\<close>

text \<open>
  \<open>chain h p as\<close>: following \<open>next\<close> from the pointer \<open>p\<close> visits exactly the
  allocated cells at the addresses \<open>as\<close>, in this order, and then reaches null.
\<close>

fun chain :: "'a heap \<Rightarrow> addr option \<Rightarrow> addr list \<Rightarrow> bool" where
  "chain h p [] \<longleftrightarrow> p = None"
| "chain h p (a # as) \<longleftrightarrow>
     p = Some a \<and> (case fmlookup h a of None \<Rightarrow> False | Some e \<Rightarrow> chain h (next e) as)"

definition payload :: "'a heap \<Rightarrow> addr \<Rightarrow> 'a option" where
  "payload h a = map_option data (fmlookup h a)"

text \<open>
  The invariant of the queue, relative to the addresses \<open>as\<close> of its chain and
  the values \<open>vs\<close> that were pushed and not yet popped, oldest first: the chain
  from \<open>Head\<close> is \<open>as\<close>, it is not empty and visits no cell twice, \<open>Tail\<close>
  designates its last node, the nodes before the last one carry the values
  \<open>vs\<close> in order, and the last node still carries the payload that
  \<^verbatim>\<open>new Element()\<close> gave it.
\<close>

definition queue_inv :: "'a \<Rightarrow> CustomQueue \<Rightarrow> 'a heap \<Rightarrow> addr list \<Rightarrow> 'a list \<Rightarrow> bool" where
  "queue_inv dflt q h as vs \<longleftrightarrow>
     as \<noteq> [] \<and> distinct as \<and> chain h (Head q) as \<and> Tail q = Some (last as) \<and>
     map (payload h) (butlast as) = map Some vs \<and> payload h (last as) = Some dflt"


section \<open>ThreadSafeStack over std::stack (ThreadSafeStack.cpp)\<close>

text \<open>
  The container is a list with the top of the stack at its head. The class has
  the member functions \<open>push\<close>, \<open>pop\<close>, \<open>empty\<close> and \<open>size\<close>. Growing the
  container is taken to succeed.
\<close>

record 'a ThreadSafeStack =
  data_stack :: "'a list"

definition Stack_push :: "'a \<Rightarrow> 'a ThreadSafeStack \<Rightarrow> 'a ThreadSafeStack" where
  "Stack_push v s = s\<lparr>data_stack := v # data_stack s\<rparr>"

definition Stack_pop :: "'a ThreadSafeStack \<Rightarrow> (fault + 'a) \<times> 'a ThreadSafeStack" where
  "Stack_pop s =
     (case data_stack s of
        [] \<Rightarrow> (Inl (RuntimeError ''ThreadSafeStack: pop() called on empty stack''), s)
      | val # rest \<Rightarrow> (Inr val, s\<lparr>data_stack := rest\<rparr>))"

definition Stack_empty :: "'a ThreadSafeStack \<Rightarrow> bool" where
  "Stack_empty s \<longleftrightarrow> data_stack s = []"

definition Stack_size :: "'a ThreadSafeStack \<Rightarrow> nat" where
  "Stack_size s = length (data_stack s)"


section \<open>ThreadSafeStack over a chain of nodes (ThreadSafeStack2.cpp)\<close>

text \<open>
  The nodes are the same \<open>Element\<close> cells. \<open>pop\<close> and \<open>peek\<close> throw
  \<^verbatim>\<open>std::runtime_error\<close> on the empty stack, \<open>try_pop\<close> returns false
  there. The copies of the payload are taken to succeed. The class has the
  member functions \<open>push\<close>, \<open>pop\<close>, \<open>try_pop\<close>, \<open>peek\<close> and \<open>empty\<close>.
\<close>

record ThreadSafeStack2 =
  Top :: "addr option"

definition Stack2_new :: ThreadSafeStack2 where
  "Stack2_new = \<lparr>Top = None\<rparr>"

definition Stack2_push ::
  "'a \<Rightarrow> addr option \<Rightarrow> 'a \<Rightarrow> ThreadSafeStack2 \<Rightarrow> 'a heap
     \<Rightarrow> (fault + unit) \<times> ThreadSafeStack2 \<times> 'a heap" where
  "Stack2_push dflt alloc v s h =
     (case new_Element dflt alloc h of
        Inl e \<Rightarrow> (Inl e, s, h)
      | Inr (newElement, h1) \<Rightarrow>
          (case set_data (Some newElement) v h1 of
             Inl e \<Rightarrow> (Inl e, s, h1)
           | Inr h2 \<Rightarrow>
               (case set_next (Some newElement) (Top s) h2 of
                  Inl e \<Rightarrow> (Inl e, s, h2)
                | Inr h3 \<Rightarrow> (Inr (), s\<lparr>Top := Some newElement\<rparr>, h3))))"

definition Stack2_pop ::
  "ThreadSafeStack2 \<Rightarrow> 'a heap \<Rightarrow> (fault + 'a) \<times> ThreadSafeStack2 \<times> 'a heap" where
  "Stack2_pop s h =
     (if Top s = None then (Inl (RuntimeError ''Stack is empty''), s, h)
      else
        (case get_data (Top s) h of
           Inl e \<Rightarrow> (Inl e, s, h)
         | Inr datareturned \<Rightarrow>
             (let oldelement = Top s in
              case get_next (Top s) h of
                Inl e \<Rightarrow> (Inl e, s, h)
              | Inr n \<Rightarrow>
                  (case delete_Element oldelement h of
                     Inl e \<Rightarrow> (Inl e, s\<lparr>Top := n\<rparr>, h)
                   | Inr h1 \<Rightarrow> (Inr datareturned, s\<lparr>Top := n\<rparr>, h1)))))"

definition Stack2_try_pop ::
  "'a \<Rightarrow> ThreadSafeStack2 \<Rightarrow> 'a heap \<Rightarrow> (fault + bool \<times> 'a) \<times> ThreadSafeStack2 \<times> 'a heap" where
  "Stack2_try_pop val s h =
     (if Top s = None then (Inr (False, val), s, h)
      else
        (case get_data (Top s) h of
           Inl e \<Rightarrow> (Inl e, s, h)
         | Inr d \<Rightarrow>
             (let oldelement = Top s in
              case get_next (Top s) h of
                Inl e \<Rightarrow> (Inl e, s, h)
              | Inr n \<Rightarrow>
                  (case delete_Element oldelement h of
                     Inl e \<Rightarrow> (Inl e, s\<lparr>Top := n\<rparr>, h)
                   | Inr h1 \<Rightarrow> (Inr (True, d), s\<lparr>Top := n\<rparr>, h1)))))"

definition Stack2_peek :: "ThreadSafeStack2 \<Rightarrow> 'a heap \<Rightarrow> fault + 'a" where
  "Stack2_peek s h =
     (if Top s = None then Inl (RuntimeError ''Stack is empty'') else get_data (Top s) h)"

definition Stack2_empty :: "ThreadSafeStack2 \<Rightarrow> bool" where
  "Stack2_empty s \<longleftrightarrow> Top s = None"

text \<open>The public member functions the two stack classes declare, by name.\<close>

datatype operation = Op_push | Op_pop | Op_try_pop | Op_peek | Op_empty | Op_size

definition ThreadSafeStack_operations :: "operation list" where
  "ThreadSafeStack_operations = [Op_push, Op_pop, Op_empty, Op_size]"

definition ThreadSafeStack2_operations :: "operation list" where
  "ThreadSafeStack2_operations = [Op_push, Op_pop, Op_try_pop, Op_peek, Op_empty]"


section \<open>Properties of the queue\<close>

subsection \<open>Chains\<close>

lemma chain_allocated: "chain h p as \<Longrightarrow> a \<in> set as \<Longrightarrow> a |\<in>| fmdom h"
  by (induction as arbitrary: p) (auto split: option.splits intro: fmdomI)

lemma chain_agree:
  "(\<And>b. b \<in> set as \<Longrightarrow> fmlookup h' b = fmlookup h b) \<Longrightarrow> chain h' p as = chain h p as"
  by (induction as arbitrary: p) (auto split: option.splits)

lemma chain_last_next:
  "chain h p as \<Longrightarrow> as \<noteq> [] \<Longrightarrow> \<exists>e. fmlookup h (last as) = Some e \<and> next e = None"
  by (induction as arbitrary: p) (auto split: option.splits)

lemma chain_snoc:
  "chain h p as \<Longrightarrow> as \<noteq> [] \<Longrightarrow> distinct as \<Longrightarrow> a \<notin> set as \<Longrightarrow>
   fmlookup h' (last as) = Some e' \<Longrightarrow> next e' = Some a \<Longrightarrow>
   fmlookup h' a = Some ea \<Longrightarrow> next ea = None \<Longrightarrow>
   (\<And>b. b \<in> set (butlast as) \<Longrightarrow> fmlookup h' b = fmlookup h b) \<Longrightarrow>
   chain h' p (as @ [a])"
proof (induction as arbitrary: p)
  case Nil
  then show ?case by simp
next
  case (Cons b bs)
  show ?case
  proof (cases "bs = []")
    case True
    with Cons.prems show ?thesis by simp
  next
    case False
    from Cons.prems(1) obtain eb where p: "p = Some b" and eb: "fmlookup h b = Some eb"
      and rest: "chain h (next eb) bs"
      by (auto split: option.splits)
    from False Cons.prems have "fmlookup h' b = fmlookup h b" by simp
    moreover have "chain h' (next eb) (bs @ [a])"
      using Cons.IH[OF rest False] Cons.prems False by simp
    ultimately show ?thesis using p eb by simp
  qed
qed

subsection \<open>What a call does on a well-formed queue\<close>

lemma push_eq:
  "Tail q = Some t \<Longrightarrow> fmlookup h t = Some e \<Longrightarrow> t \<noteq> a \<Longrightarrow> assign_ok v \<Longrightarrow>
   push dflt assign_ok (Some a) v q h =
     (Inr (), q\<lparr>Tail := Some a\<rparr>,
      fmupd t (e\<lparr>data := v, next := Some a\<rparr>) (fmupd a \<lparr>data = dflt, next = None\<rparr> h))"
  by (simp add: push_def new_Element_def set_next_def set_data_def)

lemma push_assign_throws_eq:
  "Tail q = Some t \<Longrightarrow> fmlookup h t = Some e \<Longrightarrow> t \<noteq> a \<Longrightarrow> \<not> assign_ok v \<Longrightarrow>
   push dflt assign_ok (Some a) v q h =
     (Inl CopyThrows, q, fmupd a \<lparr>data = dflt, next = None\<rparr> h)"
  by (simp add: push_def new_Element_def set_next_def set_data_def)

lemma pop_eq:
  "Head q = Some a \<Longrightarrow> Head q \<noteq> Tail q \<Longrightarrow> fmlookup h a = Some e \<Longrightarrow>
   pop copy_ok return_ok q h =
     Some (if \<not> copy_ok (data e) then (Inl CopyThrows, q, h)
           else if \<not> return_ok (data e) then (Inl CopyThrows, q\<lparr>Head := next e\<rparr>, fmdrop a h)
           else (Inr (data e), q\<lparr>Head := next e\<rparr>, fmdrop a h))"
  by (simp add: pop_def get_tail_def get_data_def get_next_def delete_Element_def fmdomI)

lemma try_pop_eq:
  "Head q = Some a \<Longrightarrow> Head q \<noteq> Tail q \<Longrightarrow> fmlookup h a = Some e \<Longrightarrow>
   try_pop copy_ok val q h =
     (if \<not> copy_ok (data e) then (Inl CopyThrows, q, h)
      else (Inr (True, data e), q\<lparr>Head := next e\<rparr>, fmdrop a h))"
  by (simp add: try_pop_def get_tail_def get_data_def get_next_def delete_Element_def fmdomI)

lemma queue_inv_new:
  "CustomQueue_new dflt (Some a) h = (Inr q, h') \<Longrightarrow> queue_inv dflt q h' [a] []"
  by (auto simp: CustomQueue_new_def new_Element_def queue_inv_def payload_def)

lemma queue_inv_length: "queue_inv dflt q h as vs \<Longrightarrow> length as = Suc (length vs)"
proof -
  assume inv: "queue_inv dflt q h as vs"
  then have "length (map (payload h) (butlast as)) = length (map Some vs)"
    by (simp add: queue_inv_def)
  moreover from inv have "as \<noteq> []" by (simp add: queue_inv_def)
  ultimately show ?thesis by (cases as) (simp_all split: if_splits)
qed

lemma queue_inv_Head: "queue_inv dflt q h as vs \<Longrightarrow> Head q = Some (hd as)"
  by (cases as) (auto simp: queue_inv_def)

lemma queue_inv_empty_iff: "queue_inv dflt q h as vs \<Longrightarrow> Head q = Tail q \<longleftrightarrow> vs = []"
proof -
  assume inv: "queue_inv dflt q h as vs"
  then have len: "length as = Suc (length vs)" by (rule queue_inv_length)
  from inv have H: "Head q = Some (hd as)" by (rule queue_inv_Head)
  from inv have T: "Tail q = Some (last as)" and d: "distinct as" by (simp_all add: queue_inv_def)
  show ?thesis
  proof (cases vs)
    case Nil
    with len obtain a where "as = [a]" by (cases as) auto
    with H T Nil show ?thesis by simp
  next
    case (Cons v ws)
    with len obtain a b bs where as: "as = a # b # bs" by (cases as; cases "tl as") auto
    with d have "a \<noteq> last (b # bs)"
      by (metis distinct.simps(2) last_in_set list.distinct(1))
    with H T as Cons show ?thesis by simp
  qed
qed

lemma queue_inv_push:
  assumes inv: "queue_inv dflt q h as vs" and fresh: "a |\<notin>| fmdom h" and ok: "assign_ok v"
  shows "\<exists>q' h'. push dflt assign_ok (Some a) v q h = (Inr (), q', h') \<and> queue_inv dflt q' h' (as @ [a]) (vs @ [v])
     \<and> fmdom h' = finsert a (fmdom h)"
proof -
  from inv have ne: "as \<noteq> []" and d: "distinct as" and ch: "chain h (Head q) as"
    and T: "Tail q = Some (last as)" and pl: "map (payload h) (butlast as) = map Some vs"
    by (simp_all add: queue_inv_def)
  from ch fresh have a: "a \<notin> set as" using chain_allocated by blast
  from ch ne obtain e where e: "fmlookup h (last as) = Some e" using chain_last_next by blast
  from a ne have ta: "last as \<noteq> a" using last_in_set by metis
  let ?h' = "fmupd (last as) (e\<lparr>data := v, next := Some a\<rparr>) (fmupd a \<lparr>data = dflt, next = None\<rparr> h)"
  have P: "push dflt assign_ok (Some a) v q h = (Inr (), q\<lparr>Tail := Some a\<rparr>, ?h')"
    using T e ta ok by (rule push_eq)
  have agree: "\<And>b. b \<in> set (butlast as) \<Longrightarrow> fmlookup ?h' b = fmlookup h b"
  proof -
    fix b assume b: "b \<in> set (butlast as)"
    then have "b \<in> set as" by (rule in_set_butlastD)
    with a have "b \<noteq> a" by auto
    moreover from b d ne have "b \<noteq> last as"
      by (metis append_butlast_last_id distinct_append disjoint_iff list.set_intros(1))
    ultimately show "fmlookup ?h' b = fmlookup h b" by simp
  qed
  have C: "chain ?h' (Head q) (as @ [a])"
    by (rule chain_snoc[OF ch ne d a _ _ _ _ agree]) (use ta in auto)
  have "map (payload ?h') (butlast as) = map (payload h) (butlast as)"
    using agree by (simp add: payload_def)
  moreover have "payload ?h' (last as) = Some v"
    by (simp add: payload_def)
  moreover have "map (payload ?h') as = map (payload ?h') (butlast as) @ [payload ?h' (last as)]"
  proof -
    have "map (payload ?h') (butlast as @ [last as]) = map (payload ?h') (butlast as) @ [payload ?h' (last as)]"
      by simp
    then show ?thesis
      by (simp only: append_butlast_last_id[OF ne])
  qed
  ultimately have PL: "map (payload ?h') (butlast (as @ [a])) = map Some (vs @ [v])"
    using pl by simp
  have S: "payload ?h' (last (as @ [a])) = Some dflt"
    using ta by (simp add: payload_def)
  have "last as |\<in>| fmdom h"
    using e by (rule fmdomI)
  then have D: "fmdom ?h' = finsert a (fmdom h)"
    by (simp add: finsert_absorb finsert_commute)
  have "queue_inv dflt (q\<lparr>Tail := Some a\<rparr>) ?h' (as @ [a]) (vs @ [v])"
    unfolding queue_inv_def using d a C PL S by simp
  with P D show ?thesis by blast
qed

lemma queue_inv_pop_state:
  assumes inv: "queue_inv dflt q h as (v # vs)"
  shows "\<exists>e. fmlookup h (hd as) = Some e \<and> data e = v \<and> Head q = Some (hd as) \<and> Head q \<noteq> Tail q \<and>
     queue_inv dflt (q\<lparr>Head := next e\<rparr>) (fmdrop (hd as) h) (tl as) vs"
proof -
  from inv have len: "length as = Suc (length (v # vs))" by (rule queue_inv_length)
  then obtain a b bs where as: "as = a # b # bs" by (cases as; cases "tl as") auto
  have ne: "Head q \<noteq> Tail q" using queue_inv_empty_iff[OF inv] by simp
  from inv as have d: "distinct (a # b # bs)" and ch: "chain h (Head q) (a # b # bs)"
    and T: "Tail q = Some (last (b # bs))"
    and pl: "map (payload h) (butlast (a # b # bs)) = map Some (v # vs)"
    and S: "payload h (last (b # bs)) = Some dflt"
    by (simp_all add: queue_inv_def)
  from ch obtain e where H: "Head q = Some a" and e: "fmlookup h a = Some e"
    and rest: "chain h (next e) (b # bs)"
    by (auto split: option.splits)
  from pl e have v: "data e = v" by (simp add: payload_def)
  have outside: "fmlookup (fmdrop a h) c = fmlookup h c" if "c \<in> set (b # bs)" for c
  proof -
    from d that have "c \<noteq> a" by auto
    then show ?thesis by simp
  qed
  have "chain (fmdrop a h) (next e) (b # bs) = chain h (next e) (b # bs)"
    by (rule chain_agree) (rule outside)
  with rest have C: "chain (fmdrop a h) (next e) (b # bs)"
    by simp
  have same: "payload (fmdrop a h) c = payload h c" if "c \<in> set (b # bs)" for c
    using outside[OF that] by (simp add: payload_def)
  have "map (payload (fmdrop a h)) (butlast (b # bs)) = map (payload h) (butlast (b # bs))"
    by (rule map_cong[OF refl]) (rule same, erule in_set_butlastD)
  with pl have PL: "map (payload (fmdrop a h)) (butlast (b # bs)) = map Some vs"
    by simp
  have "last (b # bs) \<in> set (b # bs)"
    by (rule last_in_set) simp
  then have "payload (fmdrop a h) (last (b # bs)) = payload h (last (b # bs))"
    by (rule same)
  with S have S': "payload (fmdrop a h) (last (b # bs)) = Some dflt"
    by simp
  have "queue_inv dflt (q\<lparr>Head := next e\<rparr>) (fmdrop a h) (b # bs) vs"
    unfolding queue_inv_def using d C T PL S' by simp
  with e v H ne as show ?thesis by simp
qed


lemma queue_inv_pop:
  assumes inv: "queue_inv dflt q h as (v # vs)"
  shows "\<exists>q' h'. pop copy_ok return_ok q h =
           Some (if \<not> copy_ok v then (Inl CopyThrows, q, h)
                 else if \<not> return_ok v then (Inl CopyThrows, q', h')
                 else (Inr v, q', h')) \<and>
         queue_inv dflt q' h' (tl as) vs \<and> fmdom h' = fmdom h |-| {|hd as|}"
proof -
  from queue_inv_pop_state[OF inv] obtain e where e: "fmlookup h (hd as) = Some e"
    and v: "data e = v" and H: "Head q = Some (hd as)" and ne: "Head q \<noteq> Tail q"
    and inv': "queue_inv dflt (q\<lparr>Head := next e\<rparr>) (fmdrop (hd as) h) (tl as) vs"
    by blast
  have "pop copy_ok return_ok q h =
     Some (if \<not> copy_ok v then (Inl CopyThrows, q, h)
           else if \<not> return_ok v then (Inl CopyThrows, q\<lparr>Head := next e\<rparr>, fmdrop (hd as) h)
           else (Inr v, q\<lparr>Head := next e\<rparr>, fmdrop (hd as) h))"
    using pop_eq[OF H ne e] v by simp
  with inv' show ?thesis by (intro exI conjI) (assumption, assumption, simp)
qed

lemma queue_inv_try_pop:
  assumes inv: "queue_inv dflt q h as (v # vs)"
  shows "\<exists>q' h'. try_pop copy_ok val q h =
           (if \<not> copy_ok v then (Inl CopyThrows, q, h) else (Inr (True, v), q', h')) \<and>
         queue_inv dflt q' h' (tl as) vs \<and> fmdom h' = fmdom h |-| {|hd as|}"
proof -
  from queue_inv_pop_state[OF inv] obtain e where e: "fmlookup h (hd as) = Some e"
    and v: "data e = v" and H: "Head q = Some (hd as)" and ne: "Head q \<noteq> Tail q"
    and inv': "queue_inv dflt (q\<lparr>Head := next e\<rparr>) (fmdrop (hd as) h) (tl as) vs"
    by blast
  have "try_pop copy_ok val q h =
     (if \<not> copy_ok v then (Inl CopyThrows, q, h)
      else (Inr (True, v), q\<lparr>Head := next e\<rparr>, fmdrop (hd as) h))"
    using try_pop_eq[OF H ne e] v by simp
  with inv' show ?thesis by (intro exI conjI) (assumption, assumption, simp)
qed

lemma try_pop_empty: "Head q = Tail q \<Longrightarrow> try_pop copy_ok val q h = (Inr (False, val), q, h)"
  by (simp add: try_pop_def get_tail_def)

lemma pop_empty: "Head q = Tail q \<Longrightarrow> pop copy_ok return_ok q h = None"
  by (simp add: pop_def get_tail_def)

lemma push_BadAlloc: "push dflt assign_ok None v q h = (Inl BadAlloc, q, h)"
  by (simp add: push_def new_Element_def)

lemma queue_inv_heap_agree:
  assumes agree: "\<And>b. b \<in> set as \<Longrightarrow> fmlookup h' b = fmlookup h b"
  shows "queue_inv dflt q h' as vs = queue_inv dflt q h as vs"
proof (cases "as = []")
  case True
  then show ?thesis by (simp add: queue_inv_def)
next
  case False
  have C: "chain h' (Head q) as = chain h (Head q) as"
    by (rule chain_agree) (rule agree)
  have same: "payload h' b = payload h b" if "b \<in> set as" for b
    using agree[OF that] by (simp add: payload_def)
  have M: "map (payload h') (butlast as) = map (payload h) (butlast as)"
    by (rule map_cong[OF refl]) (rule same, erule in_set_butlastD)
  have L: "payload h' (last as) = payload h (last as)"
    using False by (intro same last_in_set)
  show ?thesis
    unfolding queue_inv_def by (simp only: C M L)
qed

lemma queue_inv_push_throws:
  assumes inv: "queue_inv dflt q h as vs" and fresh: "a |\<notin>| fmdom h" and throws: "\<not> assign_ok v"
  shows "push dflt assign_ok (Some a) v q h =
           (Inl CopyThrows, q, fmupd a \<lparr>data = dflt, next = None\<rparr> h) \<and>
         queue_inv dflt q (fmupd a \<lparr>data = dflt, next = None\<rparr> h) as vs"
proof -
  from inv have ne: "as \<noteq> []" and ch: "chain h (Head q) as" and T: "Tail q = Some (last as)"
    by (simp_all add: queue_inv_def)
  from ch fresh have a: "a \<notin> set as" using chain_allocated by blast
  from ch ne obtain e where e: "fmlookup h (last as) = Some e" using chain_last_next by blast
  from a ne have ta: "last as \<noteq> a" using last_in_set by metis
  have P: "push dflt assign_ok (Some a) v q h =
      (Inl CopyThrows, q, fmupd a \<lparr>data = dflt, next = None\<rparr> h)"
    using T e ta throws by (rule push_assign_throws_eq)
  have "queue_inv dflt q (fmupd a \<lparr>data = dflt, next = None\<rparr> h) as vs = queue_inv dflt q h as vs"
  proof (rule queue_inv_heap_agree)
    fix b assume "b \<in> set as"
    with a have "a \<noteq> b" by auto
    then show "fmlookup (fmupd a \<lparr>data = dflt, next = None\<rparr> h) b = fmlookup h b" by simp
  qed
  with inv P show ?thesis by simp
qed

lemma destroy_loop_chain:
  "chain h (Head q) as \<Longrightarrow> distinct as \<Longrightarrow>
   destroy_loop q released h = (Inr (released @ as), q\<lparr>Head := None\<rparr>, fmdrop_set (set as) h)"
proof (induction as arbitrary: q released h)
  case Nil
  then have "Head q = None" by simp
  moreover from this have "q\<lparr>Head := None\<rparr> = q" by (cases q) simp
  ultimately show ?case by (subst destroy_loop.simps) simp
next
  case (Cons a as)
  from Cons.prems(1) obtain e where H: "Head q = Some a" and e: "fmlookup h a = Some e"
    and rest: "chain h (next e) as"
    by (auto split: option.splits)
  from Cons.prems(2) have a: "a \<notin> set as" and d: "distinct as" by simp_all
  have "chain (fmdrop a h) (next e) as = chain h (next e) as"
  proof (rule chain_agree)
    fix b assume "b \<in> set as"
    with a have "b \<noteq> a" by auto
    then show "fmlookup (fmdrop a h) b = fmlookup h b" by simp
  qed
  with rest have "chain (fmdrop a h) (Head (q\<lparr>Head := next e\<rparr>)) as" by simp
  from Cons.IH[OF this d, of "released @ [a]"]
  have IH: "destroy_loop (q\<lparr>Head := next e\<rparr>) (released @ [a]) (fmdrop a h) =
      (Inr (released @ a # as), q\<lparr>Head := None\<rparr>, fmdrop_set (set as) (fmdrop a h))"
    by simp
  have "fmdrop_set (set as) (fmdrop a h) = fmdrop_set (set (a # as)) h"
    by (rule fmap_ext) auto
  with IH H e show ?case by (subst destroy_loop.simps) simp
qed


subsection \<open>Runs of pushes and pops\<close>

lemma push_all_inv:
  "queue_inv dflt q h as ws \<Longrightarrow> distinct new \<Longrightarrow> fset_of_list new |\<inter>| fmdom h = {||} \<Longrightarrow>
   length new = length vs \<Longrightarrow>
   \<exists>q1 h1. push_all dflt (\<lambda>_. True) (zip (map Some new) vs) q h = (Inr (), q1, h1) \<and>
     queue_inv dflt q1 h1 (as @ new) (ws @ vs)"
proof (induction new arbitrary: vs q h as ws)
  case Nil
  then show ?case by simp
next
  case (Cons a new)
  from Cons.prems(4) obtain v vs' where vs: "vs = v # vs'" and len: "length new = length vs'"
    by (cases vs) auto
  from Cons.prems(3) have fresh: "a |\<notin>| fmdom h"
    by auto
  from queue_inv_push[where assign_ok = "\<lambda>_. True" and v = v, OF Cons.prems(1) fresh] obtain q' h' where
    P: "push dflt (\<lambda>_. True) (Some a) v q h = (Inr (), q', h')"
    and I: "queue_inv dflt q' h' (as @ [a]) (ws @ [v])"
    and D: "fmdom h' = finsert a (fmdom h)"
    by blast
  from Cons.prems(2) have d: "distinct new" and a: "a \<notin> set new"
    by simp_all
  from Cons.prems(3) a D have disj: "fset_of_list new |\<inter>| fmdom h' = {||}"
    by (auto simp: fset_of_list_elem)
  from Cons.IH[OF I d disj len] obtain q1 h1 where
    "push_all dflt (\<lambda>_. True) (zip (map Some new) vs') q' h' = (Inr (), q1, h1)"
    "queue_inv dflt q1 h1 ((as @ [a]) @ new) ((ws @ [v]) @ vs')"
    by blast
  with P vs show ?case by simp
qed

lemma pop_n_inv:
  "queue_inv dflt q h as (vs @ ws) \<Longrightarrow>
   \<exists>q' h'. pop_n (length vs) (\<lambda>_. True) (\<lambda>_. True) q h = Some (Inr vs, q', h') \<and>
     queue_inv dflt q' h' (drop (length vs) as) ws"
proof (induction vs arbitrary: q h as)
  case Nil
  then show ?case by simp
next
  case (Cons v vs)
  then have inv: "queue_inv dflt q h as (v # (vs @ ws))" by simp
  from queue_inv_pop[OF inv, of "\<lambda>_. True" "\<lambda>_. True"] obtain q1 h1 where
    P: "pop (\<lambda>_. True) (\<lambda>_. True) q h = Some (Inr v, q1, h1)"
    and I: "queue_inv dflt q1 h1 (tl as) (vs @ ws)"
    by auto
  from Cons.IH[OF I] obtain q2 h2 where
    "pop_n (length vs) (\<lambda>_. True) (\<lambda>_. True) q1 h1 = Some (Inr vs, q2, h2)"
    "queue_inv dflt q2 h2 (drop (length vs) (tl as)) ws"
    by blast
  with P show ?case by (simp add: drop_Suc)
qed

lemma fifo_run:
  assumes inv: "queue_inv dflt q h as []" and d: "distinct new"
    and fresh: "fset_of_list new |\<inter>| fmdom h = {||}" and len: "length new = length vs"
  shows "\<exists>q1 h1 q2 h2. push_all dflt (\<lambda>_. True) (zip (map Some new) vs) q h = (Inr (), q1, h1) \<and>
     pop_n (length vs) (\<lambda>_. True) (\<lambda>_. True) q1 h1 = Some (Inr vs, q2, h2) \<and>
     queue_inv dflt q2 h2 (drop (length vs) (as @ new)) []"
proof -
  from push_all_inv[OF inv d fresh len] obtain q1 h1 where
    P: "push_all dflt (\<lambda>_. True) (zip (map Some new) vs) q h = (Inr (), q1, h1)"
    and I: "queue_inv dflt q1 h1 (as @ new) ([] @ vs)"
    by blast
  from I have "queue_inv dflt q1 h1 (as @ new) (vs @ [])" by simp
  from pop_n_inv[OF this] P show ?thesis by blast
qed

lemma pop_copy_failure_keeps_queue:
  "queue_inv dflt q h as (v # vs) \<Longrightarrow> \<not> copy_ok v \<Longrightarrow>
   pop copy_ok return_ok q h = Some (Inl CopyThrows, q, h)"
  using queue_inv_pop[of dflt q h as v vs copy_ok return_ok] by auto

lemma queue_inv_second:
  assumes inv: "queue_inv dflt q h as (v # vs)"
  shows "hd (tl as) \<noteq> hd as"
proof -
  from queue_inv_length[OF inv] obtain a b bs where "as = a # b # bs"
    by (cases as; cases "tl as") auto
  moreover from inv have "distinct as" by (simp add: queue_inv_def)
  ultimately show ?thesis by auto
qed


section \<open>The claims\<close>

text \<open>
  C1. The chain of a queue always has at least one node; \<open>Tail\<close> designates
  the sentinel, the last node of the chain, which has no successor and still
  carries the payload it was allocated with; the queue is empty exactly when
  \<open>Head = Tail\<close>; the nodes before the sentinel carry the values that were
  pushed and not yet popped. The constructor establishes this invariant, and
  every \<open>push\<close>, \<open>pop\<close> and \<open>try_pop\<close> preserves it, whichever way the call
  ends. A push that completes appends its value. A push whose allocation
  fails changes nothing; a push whose assignment of the payload throws leaves
  the chain and its values as they were, with the new dummy allocated outside
  the chain. A pop or try_pop that gets past the copy of the payload removes
  the oldest value, and every other pop or try_pop leaves the chain as it was.
\<close>

theorem sentinel_invariant:
  fixes q :: CustomQueue and h h0 :: "'a heap"
  shows
    "(\<exists>q0 h1. CustomQueue_new dflt (Some a0) h0 = (Inr q0, h1) \<and> queue_inv dflt q0 h1 [a0] []) \<and>
     (queue_inv dflt q h as vs \<longrightarrow>
        length as = Suc (length vs) \<and>
        (\<exists>e. Tail q = Some (last as) \<and> fmlookup h (last as) = Some e \<and> next e = None \<and> data e = dflt) \<and>
        (Head q = Tail q \<longleftrightarrow> vs = []) \<and> (empty q \<longleftrightarrow> vs = []) \<and>
        map (payload h) (butlast as) = map Some vs \<and>
        (a |\<notin>| fmdom h \<longrightarrow>
           (if assign_ok v
            then \<exists>q' h'. push dflt assign_ok (Some a) v q h = (Inr (), q', h') \<and>
                   queue_inv dflt q' h' (as @ [a]) (vs @ [v])
            else push dflt assign_ok (Some a) v q h =
                   (Inl CopyThrows, q, fmupd a \<lparr>data = dflt, next = None\<rparr> h) \<and>
                 queue_inv dflt q (fmupd a \<lparr>data = dflt, next = None\<rparr> h) as vs)) \<and>
        push dflt assign_ok None v q h = (Inl BadAlloc, q, h) \<and>
        (case vs of
           [] \<Rightarrow> pop copy_ok return_ok q h = None
         | w # ws \<Rightarrow>
             \<exists>r q' h'. pop copy_ok return_ok q h = Some (r, q', h') \<and>
               (if copy_ok w then queue_inv dflt q' h' (tl as) ws else queue_inv dflt q' h' as vs)) \<and>
        (case vs of
           [] \<Rightarrow> try_pop copy_ok val q h = (Inr (False, val), q, h)
         | w # ws \<Rightarrow>
             \<exists>r q' h'. try_pop copy_ok val q h = (r, q', h') \<and>
               (if copy_ok w then queue_inv dflt q' h' (tl as) ws else queue_inv dflt q' h' as vs)))"
proof (rule conjI, goal_cases)
  case 1
  show ?case
    by (simp add: CustomQueue_new_def new_Element_def queue_inv_def payload_def)
next
  case 2
  show ?case
  proof (rule impI)
    assume inv: "queue_inv dflt q h as vs"
    have len: "length as = Suc (length vs)"
      using inv by (rule queue_inv_length)
    from inv have ne: "as \<noteq> []" and ch: "chain h (Head q) as" and T: "Tail q = Some (last as)"
      and S: "payload h (last as) = Some dflt" and pl: "map (payload h) (butlast as) = map Some vs"
      by (simp_all add: queue_inv_def)
    from chain_last_next[OF ch ne] obtain e where e: "fmlookup h (last as) = Some e" "next e = None"
      by blast
    with S have "data e = dflt" by (simp add: payload_def)
    with T e have sentinel:
      "\<exists>e. Tail q = Some (last as) \<and> fmlookup h (last as) = Some e \<and> next e = None \<and> data e = dflt"
      by simp
    have emp: "Head q = Tail q \<longleftrightarrow> vs = []"
      using inv by (rule queue_inv_empty_iff)
    then have emp': "empty q \<longleftrightarrow> vs = []"
      by (simp add: empty_def get_tail_def)
    have pu: "a |\<notin>| fmdom h \<longrightarrow>
           (if assign_ok v
            then \<exists>q' h'. push dflt assign_ok (Some a) v q h = (Inr (), q', h') \<and>
                   queue_inv dflt q' h' (as @ [a]) (vs @ [v])
            else push dflt assign_ok (Some a) v q h =
                   (Inl CopyThrows, q, fmupd a \<lparr>data = dflt, next = None\<rparr> h) \<and>
                 queue_inv dflt q (fmupd a \<lparr>data = dflt, next = None\<rparr> h) as vs)"
    proof
      assume fresh: "a |\<notin>| fmdom h"
      show "if assign_ok v
            then \<exists>q' h'. push dflt assign_ok (Some a) v q h = (Inr (), q', h') \<and>
                   queue_inv dflt q' h' (as @ [a]) (vs @ [v])
            else push dflt assign_ok (Some a) v q h =
                   (Inl CopyThrows, q, fmupd a \<lparr>data = dflt, next = None\<rparr> h) \<and>
                 queue_inv dflt q (fmupd a \<lparr>data = dflt, next = None\<rparr> h) as vs"
      proof (cases "assign_ok v")
        case True
        from queue_inv_push[where assign_ok = assign_ok and v = v, OF inv fresh True] have
          "\<exists>q' h'. push dflt assign_ok (Some a) v q h = (Inr (), q', h') \<and>
             queue_inv dflt q' h' (as @ [a]) (vs @ [v])"
          by blast
        with True show ?thesis by simp
      next
        case False
        from queue_inv_push_throws[where assign_ok = assign_ok and v = v, OF inv fresh False] False
        show ?thesis by simp
      qed
    qed
    have ba: "push dflt assign_ok None v q h = (Inl BadAlloc, q, h)"
      by (rule push_BadAlloc)
    have po: "case vs of
          [] \<Rightarrow> pop copy_ok return_ok q h = None
        | w # ws \<Rightarrow>
            \<exists>r q' h'. pop copy_ok return_ok q h = Some (r, q', h') \<and>
              (if copy_ok w then queue_inv dflt q' h' (tl as) ws else queue_inv dflt q' h' as vs)"
    proof (cases vs)
      case Nil
      with emp show ?thesis by (simp add: pop_empty)
    next
      case (Cons w ws)
      with inv have inv': "queue_inv dflt q h as (w # ws)" by simp
      from queue_inv_pop[OF inv', of copy_ok return_ok] obtain q' h' where
        P: "pop copy_ok return_ok q h =
             Some (if \<not> copy_ok w then (Inl CopyThrows, q, h)
                   else if \<not> return_ok w then (Inl CopyThrows, q', h')
                   else (Inr w, q', h'))"
        and I: "queue_inv dflt q' h' (tl as) ws"
        by blast
      show ?thesis
      proof (cases "copy_ok w")
        case True
        with P I Cons show ?thesis by (cases "return_ok w") auto
      next
        case False
        with P inv' Cons show ?thesis by auto
      qed
    qed
    have tp: "case vs of
          [] \<Rightarrow> try_pop copy_ok val q h = (Inr (False, val), q, h)
        | w # ws \<Rightarrow>
            \<exists>r q' h'. try_pop copy_ok val q h = (r, q', h') \<and>
              (if copy_ok w then queue_inv dflt q' h' (tl as) ws else queue_inv dflt q' h' as vs)"
    proof (cases vs)
      case Nil
      with emp show ?thesis by (simp add: try_pop_empty)
    next
      case (Cons w ws)
      with inv have inv': "queue_inv dflt q h as (w # ws)" by simp
      from queue_inv_try_pop[OF inv', of copy_ok val] obtain q' h' where
        P: "try_pop copy_ok val q h =
             (if \<not> copy_ok w then (Inl CopyThrows, q, h) else (Inr (True, w), q', h'))"
        and I: "queue_inv dflt q' h' (tl as) ws"
        by blast
      show ?thesis
      proof (cases "copy_ok w")
        case True
        with P I Cons show ?thesis by auto
      next
        case False
        with P inv' Cons show ?thesis by auto
      qed
    qed
    from len sentinel emp emp' pl pu ba po tp
    show "length as = Suc (length vs) \<and>
        (\<exists>e. Tail q = Some (last as) \<and> fmlookup h (last as) = Some e \<and> next e = None \<and> data e = dflt) \<and>
        (Head q = Tail q \<longleftrightarrow> vs = []) \<and> (empty q \<longleftrightarrow> vs = []) \<and>
        map (payload h) (butlast as) = map Some vs \<and>
        (a |\<notin>| fmdom h \<longrightarrow>
           (if assign_ok v
            then \<exists>q' h'. push dflt assign_ok (Some a) v q h = (Inr (), q', h') \<and>
                   queue_inv dflt q' h' (as @ [a]) (vs @ [v])
            else push dflt assign_ok (Some a) v q h =
                   (Inl CopyThrows, q, fmupd a \<lparr>data = dflt, next = None\<rparr> h) \<and>
                 queue_inv dflt q (fmupd a \<lparr>data = dflt, next = None\<rparr> h) as vs)) \<and>
        push dflt assign_ok None v q h = (Inl BadAlloc, q, h) \<and>
        (case vs of
           [] \<Rightarrow> pop copy_ok return_ok q h = None
         | w # ws \<Rightarrow>
             \<exists>r q' h'. pop copy_ok return_ok q h = Some (r, q', h') \<and>
               (if copy_ok w then queue_inv dflt q' h' (tl as) ws else queue_inv dflt q' h' as vs)) \<and>
        (case vs of
           [] \<Rightarrow> try_pop copy_ok val q h = (Inr (False, val), q, h)
         | w # ws \<Rightarrow>
             \<exists>r q' h'. try_pop copy_ok val q h = (r, q', h') \<and>
               (if copy_ok w then queue_inv dflt q' h' (tl as) ws else queue_inv dflt q' h' as vs))"
      by (intro conjI)
  qed
qed

theorem sentinel_invariant_witness:
  "queue_inv (0::nat) \<lparr>Head = Some 0, Tail = Some 1\<rparr>
     (fmupd 0 \<lparr>data = 7, next = Some 1\<rparr> (fmupd 1 \<lparr>data = 0, next = None\<rparr> fmempty)) [0, 1] [7] \<and>
   2 |\<notin>| fmdom (fmupd 0 \<lparr>data = 7, next = Some 1\<rparr> (fmupd 1 \<lparr>data = 0, next = None\<rparr> fmempty) :: nat heap) \<and>
   (\<exists>q' h'. push (0::nat) (\<lambda>_. True) (Some 2) 9 \<lparr>Head = Some 0, Tail = Some 1\<rparr>
       (fmupd 0 \<lparr>data = 7, next = Some 1\<rparr> (fmupd 1 \<lparr>data = 0, next = None\<rparr> fmempty)) = (Inr (), q', h') \<and>
     queue_inv 0 q' h' [0, 1, 2] [7, 9]) \<and>
   push (0::nat) (\<lambda>x. x \<noteq> 9) (Some 2) 9 \<lparr>Head = Some 0, Tail = Some 1\<rparr>
       (fmupd 0 \<lparr>data = 7, next = Some 1\<rparr> (fmupd 1 \<lparr>data = 0, next = None\<rparr> fmempty)) =
     (Inl CopyThrows, \<lparr>Head = Some 0, Tail = Some 1\<rparr>,
      fmupd 2 \<lparr>data = 0, next = None\<rparr>
        (fmupd 0 \<lparr>data = 7, next = Some 1\<rparr> (fmupd 1 \<lparr>data = 0, next = None\<rparr> fmempty))) \<and>
   queue_inv (0::nat) \<lparr>Head = Some 0, Tail = Some 1\<rparr>
     (fmupd 2 \<lparr>data = 0, next = None\<rparr>
        (fmupd 0 \<lparr>data = 7, next = Some 1\<rparr> (fmupd 1 \<lparr>data = 0, next = None\<rparr> fmempty))) [0, 1] [7] \<and>
   (\<exists>r q' h'. pop (\<lambda>_. True) (\<lambda>_. True) \<lparr>Head = Some 0, Tail = Some 1\<rparr>
       (fmupd 0 \<lparr>data = 7::nat, next = Some 1\<rparr> (fmupd 1 \<lparr>data = 0, next = None\<rparr> fmempty)) = Some (r, q', h') \<and>
     queue_inv 0 q' h' [1] [])"
proof -
  let ?q = "\<lparr>Head = Some 0, Tail = Some 1\<rparr>"
  let ?h = "fmupd 0 \<lparr>data = 7, next = Some 1\<rparr> (fmupd 1 \<lparr>data = 0, next = None\<rparr> fmempty) :: nat heap"
  have h1: "queue_inv (0::nat) ?q ?h [0, 1] [7]"
    by (simp add: queue_inv_def payload_def)
  have h2: "2 |\<notin>| fmdom ?h"
    by simp
  note inst = sentinel_invariant[where dflt = 0 and q = ?q and h = ?h and as = "[0, 1]" and vs = "[7]"
      and a = 2 and v = 9 and assign_ok = "\<lambda>_. True" and copy_ok = "\<lambda>_. True"
      and return_ok = "\<lambda>_. True" and val = 0 and ?a0.0 = 0 and ?h0.0 = fmempty]
  note inst' = sentinel_invariant[where dflt = 0 and q = ?q and h = ?h and as = "[0, 1]" and vs = "[7]"
      and a = 2 and v = 9 and assign_ok = "\<lambda>x. x \<noteq> 9" and copy_ok = "\<lambda>_. True"
      and return_ok = "\<lambda>_. True" and val = 0 and ?a0.0 = 0 and ?h0.0 = fmempty]
  from inst h1 h2 have
    "\<exists>q' h'. push 0 (\<lambda>_. True) (Some 2) 9 ?q ?h = (Inr (), q', h') \<and>
       queue_inv 0 q' h' ([0, 1] @ [2]) ([7] @ [9])"
    by (elim conjE impE) simp_all
  moreover from inst' h1 h2 have
    "push 0 (\<lambda>x. x \<noteq> 9) (Some 2) 9 ?q ?h = (Inl CopyThrows, ?q, fmupd 2 \<lparr>data = 0, next = None\<rparr> ?h) \<and>
     queue_inv 0 ?q (fmupd 2 \<lparr>data = 0, next = None\<rparr> ?h) [0, 1] [7]"
    by (elim conjE impE) simp_all
  moreover from inst h1 have
    "\<exists>r q' h'. pop (\<lambda>_. True) (\<lambda>_. True) ?q ?h = Some (r, q', h') \<and> queue_inv 0 q' h' (tl [0, 1]) []"
    by (elim conjE impE) simp_all
  ultimately show ?thesis using h1 h2 by simp
qed

text \<open>
  C2. First in, first out. Take a well-formed empty queue and push the values
  \<open>vs\<close> in order, every push succeeding: the allocator answers the pushes
  with the addresses \<open>new\<close>, which are pairwise different and not in use,
  and no assignment of a payload throws.
  Then \<open>length vs\<close> calls of \<open>pop\<close>, with copies that do not throw, all
  return, and the values they return are \<open>vs\<close> in the order of the pushes.
\<close>

theorem fifo_order:
  assumes "queue_inv dflt q h as []" and "distinct new"
    and "fset_of_list new |\<inter>| fmdom h = {||}" and "length new = length vs"
  shows "\<exists>q1 h1 q2 h2. push_all dflt (\<lambda>_. True) (zip (map Some new) vs) q h = (Inr (), q1, h1) \<and>
     pop_n (length vs) (\<lambda>_. True) (\<lambda>_. True) q1 h1 = Some (Inr vs, q2, h2)"
  using fifo_run[OF assms] by blast

theorem fifo_order_witness:
  "queue_inv (0::nat) \<lparr>Head = Some 5, Tail = Some 5\<rparr> (fmupd 5 \<lparr>data = 0, next = None\<rparr> fmempty) [5] [] \<and>
   distinct [1, 2, 3 :: addr] \<and>
   fset_of_list [1, 2, 3] |\<inter>| fmdom (fmupd 5 \<lparr>data = 0, next = None\<rparr> fmempty :: nat heap) = {||} \<and>
   length [1, 2, 3 :: addr] = length [10, 20, 30 :: nat] \<and>
   (\<exists>q1 h1 q2 h2.
      push_all (0::nat) (\<lambda>_. True) (zip (map Some [1, 2, 3]) [10, 20, 30]) \<lparr>Head = Some 5, Tail = Some 5\<rparr>
        (fmupd 5 \<lparr>data = 0, next = None\<rparr> fmempty) = (Inr (), q1, h1) \<and>
      pop_n (length [10, 20, 30 :: nat]) (\<lambda>_. True) (\<lambda>_. True) q1 h1 = Some (Inr [10, 20, 30], q2, h2))"
proof -
  let ?h = "fmupd 5 \<lparr>data = 0, next = None\<rparr> fmempty :: nat heap"
  have h1: "queue_inv (0::nat) \<lparr>Head = Some 5, Tail = Some 5\<rparr> ?h [5] []"
    by (simp add: queue_inv_def payload_def)
  have h2: "distinct [1, 2, 3 :: addr]"
    by simp
  have h3: "fset_of_list [1, 2, 3] |\<inter>| fmdom ?h = {||}"
    by simp
  have h4: "length [1, 2, 3 :: addr] = length [10, 20, 30 :: nat]"
    by simp
  from fifo_order[OF h1 h2 h3 h4] h1 h2 h3 h4 show ?thesis
    by (intro conjI)
qed

text \<open>
  C3. A queue that has just been constructed (the allocation of its dummy node
  succeeded) consists of one sentinel and no value; it reports \<open>empty\<close>, and
  \<open>try_pop\<close> on it returns false and leaves the reference parameter, the
  queue and the heap as they were.
\<close>

theorem empty_on_construction:
  "\<exists>q h'. CustomQueue_new dflt (Some a) h = (Inr q, h') \<and> queue_inv dflt q h' [a] [] \<and>
     empty q \<and> try_pop copy_ok val q h' = (Inr (False, val), q, h')"
  by (simp add: CustomQueue_new_def new_Element_def queue_inv_def payload_def
      empty_def get_tail_def try_pop_def)

text \<open>
  C4. In every state with \<open>Head = Tail\<close>, \<open>try_pop\<close> returns false and
  changes nothing: the reference parameter, \<open>Head\<close>, \<open>Tail\<close> and every cell
  of the heap are the same after the call.
\<close>

theorem try_pop_on_empty:
  "Head q = Tail q \<Longrightarrow> try_pop copy_ok val q h = (Inr (False, val), q, h)"
  by (simp add: try_pop_def get_tail_def)

theorem try_pop_on_empty_witness:
  "Head \<lparr>Head = Some 5, Tail = Some 5\<rparr> = Tail \<lparr>Head = Some 5, Tail = Some 5\<rparr> \<and>
   try_pop (\<lambda>_. True) (42::nat) \<lparr>Head = Some 5, Tail = Some 5\<rparr> (fmupd 5 \<lparr>data = 0, next = None\<rparr> fmempty) =
     (Inr (False, 42), \<lparr>Head = Some 5, Tail = Some 5\<rparr>, fmupd 5 \<lparr>data = 0, next = None\<rparr> fmempty)"
proof -
  have h1: "Head \<lparr>Head = Some 5, Tail = Some 5\<rparr> = Tail \<lparr>Head = Some 5, Tail = Some 5\<rparr>"
    by simp
  from try_pop_on_empty[OF h1] h1 show ?thesis
    by (intro conjI)
qed

text \<open>
  C5. When the allocation of the new dummy fails, \<open>push\<close> propagates
  \<^verbatim>\<open>std::bad_alloc\<close> and the queue and the heap are exactly what they were
  before the call.
\<close>

theorem push_allocation_failure:
  "push dflt assign_ok None v q h = (Inl BadAlloc, q, h)"
  by (simp add: push_def new_Element_def)

text \<open>
  C6. \<open>pop\<close> detaches and deletes the head node before the payload reaches
  the caller. When the copy into the local succeeds and the construction of
  the returned value throws, the call ends with that exception, \<open>Head\<close> has
  moved on, the old head node is no longer allocated, and the queue holds only
  the younger values \<open>vs\<close>: draining it yields \<open>vs\<close>, so the value \<open>v\<close>
  that was at the head is neither returned nor left in the queue.
\<close>

theorem pop_return_failure_loses_value:
  assumes inv: "queue_inv dflt q h as (v # vs)" and c: "copy_ok v" and r: "\<not> return_ok v"
  shows "\<exists>q' h'. pop copy_ok return_ok q h = Some (Inl CopyThrows, q', h') \<and>
     Head q = Some (hd as) \<and> Head q' \<noteq> Head q \<and> hd as |\<notin>| fmdom h' \<and>
     queue_inv dflt q' h' (tl as) vs \<and>
     (\<exists>q2 h2. pop_n (length vs) (\<lambda>_. True) (\<lambda>_. True) q' h' = Some (Inr vs, q2, h2))"
proof -
  from queue_inv_pop[OF inv, of copy_ok return_ok] c r obtain q' h' where
    P: "pop copy_ok return_ok q h = Some (Inl CopyThrows, q', h')"
    and I: "queue_inv dflt q' h' (tl as) vs" and D: "fmdom h' = fmdom h |-| {|hd as|}"
    by auto
  have H: "Head q = Some (hd as)"
    using inv by (rule queue_inv_Head)
  have "Head q' = Some (hd (tl as))"
    using I by (rule queue_inv_Head)
  with H queue_inv_second[OF inv] have N: "Head q' \<noteq> Head q"
    by simp
  from D have F: "hd as |\<notin>| fmdom h'"
    by simp
  from I have "queue_inv dflt q' h' (tl as) (vs @ [])"
    by simp
  from pop_n_inv[OF this] have
    "\<exists>q2 h2. pop_n (length vs) (\<lambda>_. True) (\<lambda>_. True) q' h' = Some (Inr vs, q2, h2)"
    by blast
  with P H N F I show ?thesis by blast
qed

theorem pop_return_failure_loses_value_witness:
  "queue_inv (0::nat) \<lparr>Head = Some 0, Tail = Some 2\<rparr>
     (fmupd 0 \<lparr>data = 7, next = Some 1\<rparr> (fmupd 1 \<lparr>data = 8, next = Some 2\<rparr>
       (fmupd 2 \<lparr>data = 0, next = None\<rparr> fmempty))) [0, 1, 2] [7, 8] \<and>
   (\<lambda>x::nat. True) 7 \<and> \<not> (\<lambda>x::nat. x \<noteq> 7) 7 \<and>
   (\<exists>q' h'. pop (\<lambda>x::nat. True) (\<lambda>x. x \<noteq> 7) \<lparr>Head = Some 0, Tail = Some 2\<rparr>
       (fmupd 0 \<lparr>data = 7, next = Some 1\<rparr> (fmupd 1 \<lparr>data = 8, next = Some 2\<rparr>
         (fmupd 2 \<lparr>data = 0, next = None\<rparr> fmempty))) = Some (Inl CopyThrows, q', h') \<and>
      queue_inv 0 q' h' [1, 2] [8] \<and>
      (\<exists>q2 h2. pop_n 1 (\<lambda>_. True) (\<lambda>_. True) q' h' = Some (Inr [8], q2, h2)))"
proof -
  let ?h = "fmupd 0 \<lparr>data = 7, next = Some 1\<rparr> (fmupd 1 \<lparr>data = 8, next = Some 2\<rparr>
       (fmupd 2 \<lparr>data = 0, next = None\<rparr> fmempty)) :: nat heap"
  have h1: "queue_inv (0::nat) \<lparr>Head = Some 0, Tail = Some 2\<rparr> ?h [0, 1, 2] [7, 8]"
    by (simp add: queue_inv_def payload_def)
  have h2: "(\<lambda>x::nat. True) 7"
    by simp
  have h3: "\<not> (\<lambda>x::nat. x \<noteq> 7) 7"
    by simp
  from pop_return_failure_loses_value[where copy_ok = "\<lambda>x. True" and return_ok = "\<lambda>x. x \<noteq> 7",
      OF h1 h2 h3] h1
  show ?thesis
    by simp blast
qed

text \<open>
  C7. After \<open>N\<close> successful pushes onto a well-formed empty queue followed by
  \<open>N\<close> pops that return, \<open>empty\<close> is true.
\<close>

theorem empty_after_draining:
  assumes "queue_inv dflt q h as []" and "distinct new"
    and "fset_of_list new |\<inter>| fmdom h = {||}" and "length new = length vs"
  shows "\<exists>q1 h1 q2 h2. push_all dflt (\<lambda>_. True) (zip (map Some new) vs) q h = (Inr (), q1, h1) \<and>
     pop_n (length vs) (\<lambda>_. True) (\<lambda>_. True) q1 h1 = Some (Inr vs, q2, h2) \<and> empty q2"
proof -
  from fifo_run[OF assms] obtain q1 h1 q2 h2 where
    R: "push_all dflt (\<lambda>_. True) (zip (map Some new) vs) q h = (Inr (), q1, h1)"
      "pop_n (length vs) (\<lambda>_. True) (\<lambda>_. True) q1 h1 = Some (Inr vs, q2, h2)"
    and I: "queue_inv dflt q2 h2 (drop (length vs) (as @ new)) []"
    by blast
  from queue_inv_empty_iff[OF I] have "empty q2"
    by (simp add: empty_def get_tail_def)
  with R show ?thesis by blast
qed

theorem empty_after_draining_witness:
  "queue_inv (0::nat) \<lparr>Head = Some 5, Tail = Some 5\<rparr> (fmupd 5 \<lparr>data = 0, next = None\<rparr> fmempty) [5] [] \<and>
   distinct [1, 2 :: addr] \<and>
   fset_of_list [1, 2] |\<inter>| fmdom (fmupd 5 \<lparr>data = 0, next = None\<rparr> fmempty :: nat heap) = {||} \<and>
   length [1, 2 :: addr] = length [10, 20 :: nat] \<and>
   (\<exists>q1 h1 q2 h2.
      push_all (0::nat) (\<lambda>_. True) (zip (map Some [1, 2]) [10, 20]) \<lparr>Head = Some 5, Tail = Some 5\<rparr>
        (fmupd 5 \<lparr>data = 0, next = None\<rparr> fmempty) = (Inr (), q1, h1) \<and>
      pop_n (length [10, 20 :: nat]) (\<lambda>_. True) (\<lambda>_. True) q1 h1 = Some (Inr [10, 20], q2, h2) \<and>
      empty q2)"
proof -
  let ?h = "fmupd 5 \<lparr>data = 0, next = None\<rparr> fmempty :: nat heap"
  have h1: "queue_inv (0::nat) \<lparr>Head = Some 5, Tail = Some 5\<rparr> ?h [5] []"
    by (simp add: queue_inv_def payload_def)
  have h2: "distinct [1, 2 :: addr]"
    by simp
  have h3: "fset_of_list [1, 2] |\<inter>| fmdom ?h = {||}"
    by simp
  have h4: "length [1, 2 :: addr] = length [10, 20 :: nat]"
    by simp
  from empty_after_draining[OF h1 h2 h3 h4] h1 h2 h3 h4 show ?thesis
    by (intro conjI)
qed

text \<open>
  C8. On every well-formed queue the destructor ends without a fault. It
  deletes the nodes of the chain in order from \<open>Head\<close> to the sentinel that
  \<open>Tail\<close> designates, each node once (the addresses it deletes are the chain,
  which visits no address twice); afterwards \<open>Head\<close> is null and none of
  these nodes is allocated, while every other cell of the heap is untouched.
  The loop is a total function: it ends on every state.
\<close>

theorem destructor_releases_every_node:
  assumes inv: "queue_inv dflt q h as vs"
  shows "CustomQueue_destroy q h = (Inr as, q\<lparr>Head := None\<rparr>, fmdrop_set (set as) h) \<and>
     distinct as \<and> hd as # tl as = as \<and> Head q = Some (hd as) \<and> Tail q = Some (last as) \<and>
     set as \<subseteq> fmdom' h \<and> fmdom' (fmdrop_set (set as) h) = fmdom' h - set as"
proof -
  from inv have ne: "as \<noteq> []" and d: "distinct as" and ch: "chain h (Head q) as"
    and T: "Tail q = Some (last as)"
    by (simp_all add: queue_inv_def)
  have "CustomQueue_destroy q h = (Inr ([] @ as), q\<lparr>Head := None\<rparr>, fmdrop_set (set as) h)"
    unfolding CustomQueue_destroy_def using ch d by (rule destroy_loop_chain)
  moreover have "set as \<subseteq> fmdom' h"
    using chain_allocated[OF ch] by (auto simp: fmdom'_alt_def)
  moreover have "Head q = Some (hd as)"
    using inv by (rule queue_inv_Head)
  ultimately show ?thesis using ne d T by simp
qed

theorem destructor_releases_every_node_witness:
  "queue_inv (0::nat) \<lparr>Head = Some 0, Tail = Some 2\<rparr>
     (fmupd 0 \<lparr>data = 7, next = Some 1\<rparr> (fmupd 1 \<lparr>data = 8, next = Some 2\<rparr>
       (fmupd 2 \<lparr>data = 0, next = None\<rparr> fmempty))) [0, 1, 2] [7, 8] \<and>
   CustomQueue_destroy \<lparr>Head = Some 0, Tail = Some 2\<rparr>
     (fmupd 0 \<lparr>data = 7, next = Some 1\<rparr> (fmupd 1 \<lparr>data = 8, next = Some 2\<rparr>
       (fmupd 2 \<lparr>data = 0::nat, next = None\<rparr> fmempty))) =
     (Inr [0, 1, 2], \<lparr>Head = None, Tail = Some 2\<rparr>, fmempty)"
proof -
  let ?h = "fmupd 0 \<lparr>data = 7, next = Some 1\<rparr> (fmupd 1 \<lparr>data = 8, next = Some 2\<rparr>
       (fmupd 2 \<lparr>data = 0, next = None\<rparr> fmempty)) :: nat heap"
  have h1: "queue_inv (0::nat) \<lparr>Head = Some 0, Tail = Some 2\<rparr> ?h [0, 1, 2] [7, 8]"
    by (simp add: queue_inv_def payload_def)
  have "fmdrop_set (set [0, 1, 2]) ?h = fmempty"
    by (rule fmap_ext) simp
  with destructor_releases_every_node[OF h1] h1 show ?thesis
    by simp
qed

text \<open>
  C9, as stated, fails: the class over \<^verbatim>\<open>std::stack\<close> declares no
  \<open>peek\<close>, and the class over a chain of nodes declares no \<open>size\<close>.
\<close>

theorem stacks_lack_operations:
  "Op_peek \<notin> set ThreadSafeStack_operations \<and> Op_size \<notin> set ThreadSafeStack2_operations"
  by (simp add: ThreadSafeStack_operations_def ThreadSafeStack2_operations_def)

text \<open>
  C9, amended. The stack over \<^verbatim>\<open>std::stack\<close> has \<open>push\<close>, \<open>pop\<close>,
  \<open>empty\<close> and \<open>size\<close>; the stack over a chain of nodes has \<open>push\<close>,
  \<open>pop\<close>, \<open>try_pop\<close>, \<open>peek\<close> and \<open>empty\<close>. In both, \<open>pop\<close> on an
  empty stack throws \<^verbatim>\<open>std::runtime_error\<close> instead of returning a value and
  leaves the stack as it was; \<open>peek\<close> on the empty chain stack throws as well.
\<close>

theorem stacks_operations_and_empty_pop:
  "set ThreadSafeStack_operations = {Op_push, Op_pop, Op_empty, Op_size} \<and>
   set ThreadSafeStack2_operations = {Op_push, Op_pop, Op_try_pop, Op_peek, Op_empty} \<and>
   Stack_empty \<lparr>data_stack = []\<rparr> \<and>
   Stack_pop \<lparr>data_stack = []\<rparr> =
     (Inl (RuntimeError ''ThreadSafeStack: pop() called on empty stack''), \<lparr>data_stack = []\<rparr>) \<and>
   Stack2_empty \<lparr>Top = None\<rparr> \<and>
   Stack2_pop \<lparr>Top = None\<rparr> h = (Inl (RuntimeError ''Stack is empty''), \<lparr>Top = None\<rparr>, h) \<and>
   Stack2_peek \<lparr>Top = None\<rparr> h = Inl (RuntimeError ''Stack is empty'')"
  by (simp add: ThreadSafeStack_operations_def ThreadSafeStack2_operations_def
      Stack_empty_def Stack_pop_def Stack2_empty_def Stack2_pop_def Stack2_peek_def)

text \<open>
  C10. On the stack over a chain of nodes, in every state, a \<open>push\<close> of \<open>v\<close>
  whose allocation returns an address that is not in use, followed by \<open>pop\<close>,
  returns \<open>v\<close> and restores the stack and the heap exactly.
\<close>

theorem Stack2_push_pop_roundtrip:
  assumes fresh: "a |\<notin>| fmdom h"
  shows "\<exists>s1 h1. Stack2_push dflt (Some a) v s h = (Inr (), s1, h1) \<and>
     Stack2_pop s1 h1 = (Inr v, s, h)"
proof -
  let ?h1 = "fmupd a \<lparr>data = v, next = Top s\<rparr> h"
  have P: "Stack2_push dflt (Some a) v s h = (Inr (), s\<lparr>Top := Some a\<rparr>, ?h1)"
    by (simp add: Stack2_push_def new_Element_def set_data_def set_next_def)
  have "fmdrop a ?h1 = h"
    using fresh by (simp add: fmdrop_fmupd_same fmdrop_idle)
  then have "Stack2_pop (s\<lparr>Top := Some a\<rparr>) ?h1 = (Inr v, s, h)"
    by (simp add: Stack2_pop_def get_data_def get_next_def delete_Element_def)
  with P show ?thesis by blast
qed

theorem Stack2_push_pop_roundtrip_witness:
  "3 |\<notin>| fmdom (fmupd 1 \<lparr>data = 5, next = None\<rparr> fmempty :: nat heap) \<and>
   (\<exists>s1 h1. Stack2_push (0::nat) (Some 3) 9 \<lparr>Top = Some 1\<rparr> (fmupd 1 \<lparr>data = 5, next = None\<rparr> fmempty) =
       (Inr (), s1, h1) \<and>
     Stack2_pop s1 h1 = (Inr 9, \<lparr>Top = Some 1\<rparr>, fmupd 1 \<lparr>data = 5, next = None\<rparr> fmempty))"
proof -
  have h1: "3 |\<notin>| fmdom (fmupd 1 \<lparr>data = 5, next = None\<rparr> fmempty :: nat heap)"
    by simp
  from Stack2_push_pop_roundtrip[OF h1] h1 show ?thesis
    by (intro conjI)
qed

end
